theory Spec2Isabelle
  imports Complex_Main "HOL-Library.Multiset"
begin

section \<open>JavaScript numbers, values and arrays\<close>

text \<open>
  The puzzle component keeps its board in a JavaScript array of numbers. Three things can
  sit at an index of such an array: a number, the value \<open>undefined\<close> (what a read outside
  the array returns, and what a swap then stores), and nothing at all (a hole, left behind
  when a write lands beyond the end of the array). The iteration methods \<open>every\<close>,
  \<open>filter\<close> and \<open>indexOf\<close> skip holes; an indexed read and the spread \<open>[...a]\<close> turn
  a hole into \<open>undefined\<close>. All numbers the program stores in the board are integers.
\<close>

datatype slot = Num int | Undefined | Hole

text \<open>\<open>a % b\<close> of JavaScript on integers: the remainder has the sign of the dividend.\<close>

definition js_rem :: "int \<Rightarrow> int \<Rightarrow> int" where
  "js_rem a b = sgn a * (\<bar>a\<bar> mod \<bar>b\<bar>)"

text \<open>\<open>a[i]\<close> as an expression.\<close>

definition js_get :: "slot list \<Rightarrow> int \<Rightarrow> slot" where
  "js_get a i =
     (if 0 \<le> i \<and> i < int (length a)
      then (if a ! nat i = Hole then Undefined else a ! nat i)
      else Undefined)"

text \<open>
  \<open>a[i] = v\<close>. A write at or beyond the length extends the array, leaving holes in between.
  A write at a negative index creates an ordinary property named by the index, which is not
  an element: no array operation of the program (\<open>every\<close>, \<open>indexOf\<close>, \<open>filter\<close>,
  spread, \<open>v-for\<close>) sees it, so the elements are left as they are. The click handler
  reads a negative index only on the fresh copy it has just made, where the read gives
  \<open>undefined\<close>; the shuffle never computes one from a number in \<open>[0, 1)\<close>.
\<close>

definition js_set :: "slot list \<Rightarrow> int \<Rightarrow> slot \<Rightarrow> slot list" where
  "js_set a i v =
     (if i < 0 then a
      else if i < int (length a) then a[nat i := v]
      else a @ replicate (nat i - length a) Hole @ [v])"

text \<open>
  \<open>[a[i], a[j]] = [a[j], a[i]]\<close>: both reads of the right-hand side happen first, then
  \<open>a[i]\<close> is written, then \<open>a[j]\<close>.
\<close>

definition js_swap :: "slot list \<Rightarrow> int \<Rightarrow> int \<Rightarrow> slot list" where
  "js_swap a i j =
     (let v0 = js_get a j; v1 = js_get a i
      in js_set (js_set a i v0) j v1)"

text \<open>\<open>[...a]\<close>: a copy without holes.\<close>

definition spread :: "slot list \<Rightarrow> slot list" where
  "spread a = map (\<lambda>c. if c = Hole then Undefined else c) a"

text \<open>\<open>a.every((val, idx) => f(val, idx))\<close>, the index counted from \<open>k\<close>.\<close>

fun every_from :: "(slot \<Rightarrow> int \<Rightarrow> bool) \<Rightarrow> slot list \<Rightarrow> int \<Rightarrow> bool" where
  "every_from f [] k = True"
| "every_from f (c # cs) k =
     (if c = Hole then every_from f cs (k + 1) else (f c k \<and> every_from f cs (k + 1)))"

definition js_every :: "(slot \<Rightarrow> int \<Rightarrow> bool) \<Rightarrow> slot list \<Rightarrow> bool" where
  "js_every f a = every_from f a 0"

text \<open>\<open>a.filter(f)\<close>.\<close>

definition js_filter :: "(slot \<Rightarrow> bool) \<Rightarrow> slot list \<Rightarrow> slot list" where
  "js_filter f a = filter (\<lambda>c. c \<noteq> Hole \<and> f c) a"

text \<open>\<open>a.indexOf(v)\<close> for a number \<open>v\<close>: the first index holding it, or \<open>-1\<close>.\<close>

fun indexOf_from :: "slot list \<Rightarrow> int \<Rightarrow> int \<Rightarrow> int" where
  "indexOf_from [] v k = - 1"
| "indexOf_from (c # cs) v k = (if c = Num v then k else indexOf_from cs v (k + 1))"

definition indexOf :: "slot list \<Rightarrow> int \<Rightarrow> int" where
  "indexOf a v = indexOf_from a v 0"

text \<open>\<open>x > y\<close>: a comparison with \<open>undefined\<close> is false.\<close>

fun js_gt :: "slot \<Rightarrow> slot \<Rightarrow> bool" where
  "js_gt (Num x) (Num y) = (x > y)"
| "js_gt _ _ = False"

section \<open>The puzzle component\<close>

abbreviation (input) GRID_SIZE :: int where "GRID_SIZE \<equiv> 4"
abbreviation (input) TOTAL_TILES :: int where "TOTAL_TILES \<equiv> GRID_SIZE * GRID_SIZE"
abbreviation (input) EMPTY_TILE :: int where "EMPTY_TILE \<equiv> TOTAL_TILES - 1"

text \<open>
  The reactive references of the component, the interval handle \<open>timerInterval\<close>
  (\<open>None\<close> is \<open>null\<close>), and the intervals of the environment that are live: those
  \<open>setInterval\<close> has created and \<open>clearInterval\<close> has not cancelled.
\<close>

record session =
  tiles :: "slot list"
  elapsedTime :: int
  isTimerRunning :: bool
  hasStarted :: bool
  timerInterval :: "nat option"
  intervals :: "nat list"

text \<open>The state the script sets up, before the component is mounted.\<close>

definition initial :: session where
  "initial = \<lparr>tiles = [], elapsedTime = 0, isTimerRunning = False, hasStarted = False,
              timerInterval = None, intervals = []\<rparr>"

definition isComplete :: "slot list \<Rightarrow> bool" where
  "isComplete ts = js_every (\<lambda>tile index. tile = Num index) ts"

text \<open>\<open>setInterval\<close> returns a handle that is positive and not in use.\<close>

definition setInterval :: "nat list \<Rightarrow> nat" where
  "setInterval live = Suc (fold max live 0)"

definition startTimer :: "session \<Rightarrow> session" where
  "startTimer s =
     (if isTimerRunning s then s
      else (let h = setInterval (intervals s)
            in s\<lparr>isTimerRunning := True, hasStarted := True,
                 timerInterval := Some h, intervals := h # intervals s\<rparr>))"

definition stopTimer :: "session \<Rightarrow> session" where
  "stopTimer s =
     (let s1 = (case timerInterval s of
                  Some h \<Rightarrow> s\<lparr>intervals := removeAll h (intervals s), timerInterval := None\<rparr>
                | None \<Rightarrow> s)
      in s1\<lparr>isTimerRunning := False\<rparr>)"

definition resetTimer :: "session \<Rightarrow> session" where
  "resetTimer s = (stopTimer s)\<lparr>elapsedTime := 0, hasStarted := False\<rparr>"

text \<open>
  A live interval fires: its callback, \<open>elapsedTime.value++\<close>, runs. With no live
  interval there is no callback to run.
\<close>

definition tick :: "session \<Rightarrow> session" where
  "tick s = (if intervals s = [] then s else s\<lparr>elapsedTime := elapsedTime s + 1\<rparr>)"

text \<open>The callback of \<open>watch(isComplete, ...)\<close>.\<close>

definition onComplete :: "bool \<Rightarrow> session \<Rightarrow> session" where
  "onComplete completed s = (if completed \<and> isTimerRunning s then stopTimer s else s)"

text \<open>
  The watcher is flushed after the event handler that changed the board has returned and
  before any other event is handled; it calls the callback when the value of \<open>isComplete\<close>
  differs from the one before the handler (\<open>was\<close>).
\<close>

definition flushWatch :: "bool \<Rightarrow> session \<Rightarrow> session" where
  "flushWatch was s =
     (if isComplete (tiles s) = was then s else onComplete (isComplete (tiles s)) s)"

definition findEmptyIndex :: "slot list \<Rightarrow> int" where
  "findEmptyIndex ts = indexOf ts EMPTY_TILE"

definition isAdjacent :: "slot list \<Rightarrow> int \<Rightarrow> bool" where
  "isAdjacent ts index =
     (let emptyIndex = findEmptyIndex ts;
          emptyRow = emptyIndex div GRID_SIZE;
          emptyCol = js_rem emptyIndex GRID_SIZE;
          tileRow = index div GRID_SIZE;
          tileCol = js_rem index GRID_SIZE;
          rowDiff = \<bar>emptyRow - tileRow\<bar>;
          colDiff = \<bar>emptyCol - tileCol\<bar>
      in (rowDiff = 1 \<and> colDiff = 0) \<or> (rowDiff = 0 \<and> colDiff = 1))"

definition handleTileClick :: "int \<Rightarrow> session \<Rightarrow> session" where
  "handleTileClick index s =
     (if isComplete (tiles s) then s
      else if isAdjacent (tiles s) index then
        (let s1 = (if hasStarted s then s else startTimer s);
             emptyIndex = findEmptyIndex (tiles s1);
             newTiles = js_swap (spread (tiles s1)) index emptyIndex
         in s1\<lparr>tiles := newTiles\<rparr>)
      else s)"

text \<open>
  A click on the tile at \<open>index\<close>: the handler, then the watcher. The template passes the
  index of \<open>v-for\<close>, one of \<open>0..15\<close> on a board; the handler itself takes any number,
  and the model any integer.
\<close>

definition click :: "int \<Rightarrow> session \<Rightarrow> session" where
  "click index s = flushWatch (isComplete (tiles s)) (handleTileClick index s)"

subsection \<open>The solvability check\<close>

text \<open>The inner loop of \<open>isSolvable\<close>, \<open>for (let j = ...; j < flatArr.length; j++)\<close>.\<close>

function inner_loop :: "slot list \<Rightarrow> nat \<Rightarrow> nat \<Rightarrow> int \<Rightarrow> int" where
  "inner_loop flatArr i j inversions =
     (if j < length flatArr
      then inner_loop flatArr i (j + 1)
             (if js_gt (js_get flatArr (int i)) (js_get flatArr (int j))
              then inversions + 1 else inversions)
      else inversions)"
  by pat_completeness auto
termination
  by (relation "measure (\<lambda>(flatArr, i, j, inversions). length flatArr - j)") auto

text \<open>The outer loop, \<open>for (let i = ...; i < flatArr.length; i++)\<close>.\<close>

function outer_loop :: "slot list \<Rightarrow> nat \<Rightarrow> int \<Rightarrow> int" where
  "outer_loop flatArr i inversions =
     (if i < length flatArr
      then outer_loop flatArr (i + 1) (inner_loop flatArr i (i + 1) inversions)
      else inversions)"
  by pat_completeness auto
termination
  by (relation "measure (\<lambda>(flatArr, i, inversions). length flatArr - i)") auto

declare inner_loop.simps [simp del] outer_loop.simps [simp del]

definition isSolvable :: "slot list \<Rightarrow> bool" where
  "isSolvable arr =
     (let flatArr = js_filter (\<lambda>x. x \<noteq> Num EMPTY_TILE) arr;
          inversions = outer_loop flatArr 0 0;
          emptyRow = indexOf arr EMPTY_TILE div GRID_SIZE;
          emptyRowFromBottom = GRID_SIZE - emptyRow
      in if js_rem emptyRowFromBottom 2 = 1
         then js_rem inversions 2 = 0
         else js_rem inversions 2 = 1)"

subsection \<open>Shuffling and starting a game\<close>

text \<open>
  \<open>Math.random()\<close> is modelled by the sequence of the numbers it is going to return, a
  function from the number of calls made so far; a call takes the first and leaves the
  rest. The numbers are rationals: the product with \<open>i + 1\<close> and its floor are computed
  exactly. \<open>Math.random()\<close> returns a number \<open>r\<close> with \<open>0 \<le> r < 1\<close>; the type does
  not say so, and the theorems that need it assume it. (The rounding of the product in
  floating point can change which index a number selects, not the range \<open>0..i\<close> of the
  index: every run of the program is the run of the model on some such sequence.)
\<close>

type_synonym random = "nat \<Rightarrow> rat"

definition rest :: "random \<Rightarrow> random" where
  "rest rnd = (\<lambda>k. rnd (Suc k))"

text \<open>
  The loop of \<open>shuffleArray\<close>, \<open>for (let i = ...; i > 0; i--)\<close>, from \<open>i\<close> downwards.
\<close>

fun shuffle_loop :: "nat \<Rightarrow> slot list \<Rightarrow> random \<Rightarrow> slot list \<times> random" where
  "shuffle_loop 0 shuffled rnd = (shuffled, rnd)"
| "shuffle_loop (Suc n) shuffled rnd =
     (let i = int (Suc n);
          j = \<lfloor>rnd 0 * of_int (i + 1)\<rfloor>
      in shuffle_loop n (js_swap shuffled i j) (rest rnd))"

definition shuffleArray :: "slot list \<Rightarrow> random \<Rightarrow> slot list \<times> random" where
  "shuffleArray arr rnd = shuffle_loop (length arr - 1) (spread arr) rnd"

text \<open>\<open>Array.from({ length: TOTAL_TILES }, (_, i) => i)\<close>.\<close>

definition original :: "slot list" where
  "original = map Num [0..TOTAL_TILES - 1]"

text \<open>
  The \<open>do ... while\<close> loop of \<open>initGame\<close>. Nothing bounds the number of rounds, so the
  loop is a partial function: \<open>None\<close> is the run that never leaves the loop.
\<close>

partial_function (option) shuffle_retry :: "random \<Rightarrow> (slot list \<times> random) option" where
  "shuffle_retry rnd =
     (let shuffled = fst (shuffleArray original rnd);
          rnd1 = snd (shuffleArray original rnd)
      in if \<not> isSolvable shuffled \<or> js_every (\<lambda>val idx. val = Num idx) shuffled
         then shuffle_retry rnd1
         else Some (shuffled, rnd1))"

declare shuffle_retry.simps [code]

definition initGame :: "random \<Rightarrow> session \<Rightarrow> session option" where
  "initGame rnd s =
     (case shuffle_retry rnd of
        None \<Rightarrow> None
      | Some (shuffled, rnd1) \<Rightarrow> Some (resetTimer (s\<lparr>tiles := shuffled\<rparr>)))"

definition resetGame :: "random \<Rightarrow> session \<Rightarrow> session option" where
  "resetGame rnd s = initGame rnd s"

text \<open>
  A game is started by the \<open>New game\<close> button, which calls \<open>resetGame\<close>, and by the
  mounting of the component, which calls \<open>initGame\<close>: the handler, then the watcher.
\<close>

definition newGame :: "random \<Rightarrow> session \<Rightarrow> session option" where
  "newGame rnd s = map_option (flushWatch (isComplete (tiles s))) (resetGame rnd s)"

section \<open>Notions of the specification\<close>

text \<open>
  A board is a permutation of the labels \<open>0..15\<close>: it has the elements of the solved
  board, each as often as the solved board has it.
\<close>

definition is_board :: "slot list \<Rightarrow> bool" where
  "is_board b = (mset b = mset original)"

text \<open>The solved predicate: the value at every position \<open>i\<close> in \<open>0..15\<close> equals \<open>i\<close>.\<close>

definition spec_solved :: "slot list \<Rightarrow> bool" where
  "spec_solved b = list_all (\<lambda>i. b ! i = Num (int i)) [0..<16]"

text \<open>
  Positions \<open>p\<close> and \<open>e\<close> are orthogonally adjacent: the rows differ by exactly 1 and the
  columns are equal, or the columns differ by exactly 1 and the rows are equal, with
  \<open>row = position div 4\<close> and \<open>col = position mod 4\<close>.
\<close>

definition spec_adjacent :: "nat \<Rightarrow> nat \<Rightarrow> bool" where
  "spec_adjacent p e =
     ((\<bar>int (p div 4) - int (e div 4)\<bar> = 1 \<and> p mod 4 = e mod 4) \<or>
      (\<bar>int (p mod 4) - int (e mod 4)\<bar> = 1 \<and> p div 4 = e div 4))"

text \<open>The sequence of the non-empty labels of a board, in the order of the positions.\<close>

fun spec_labels :: "slot list \<Rightarrow> int list" where
  "spec_labels [] = []"
| "spec_labels (Num v # cs) = (if v = 15 then spec_labels cs else v # spec_labels cs)"
| "spec_labels (c # cs) = spec_labels cs"

text \<open>
  The inversion count of a sequence of labels: the number of the pairs of positions
  \<open>(i, j)\<close>, \<open>i\<close> before \<open>j\<close>, where the label at \<open>i\<close> exceeds the label at \<open>j\<close>.
\<close>

definition spec_inversions :: "int list \<Rightarrow> nat" where
  "spec_inversions ls =
     length (filter (\<lambda>(i, j). i < j \<and> ls ! i > ls ! j)
               (List.product [0..<length ls] [0..<length ls]))"

section \<open>Runs of the component\<close>

text \<open>
  A click is applied when \<open>handleTileClick\<close> reaches its assignment to \<open>tiles.value\<close>:
  the component is not complete and the test of adjacency succeeds.
\<close>

definition moveApplied :: "int \<Rightarrow> session \<Rightarrow> bool" where
  "moveApplied index s = (if isComplete (tiles s) then False else isAdjacent (tiles s) index)"

text \<open>
  The rounds of the retry loop: the random numbers left when round \<open>n\<close> begins, the
  candidate that round shuffles, and the condition under which the loop goes on.
\<close>

fun round_random :: "nat \<Rightarrow> random \<Rightarrow> random" where
  "round_random 0 rnd = rnd"
| "round_random (Suc n) rnd = round_random n (snd (shuffleArray original rnd))"

definition candidate :: "nat \<Rightarrow> random \<Rightarrow> slot list" where
  "candidate n rnd = fst (shuffleArray original (round_random n rnd))"

definition rejected :: "slot list \<Rightarrow> bool" where
  "rejected shuffled = (if isSolvable shuffled then isComplete shuffled else True)"

text \<open>
  The states of a session: the component starts in \<open>initial\<close>; the events are the clicks
  on a tile (with any index), the firing of the interval, and the games started (on
  mounting and by the button, with any random numbers).
\<close>

inductive reachable :: "session \<Rightarrow> bool" where
  start: "reachable initial"
| move: "reachable s \<Longrightarrow> reachable (click index s)"
| fire: "reachable s \<Longrightarrow> reachable (tick s)"
| game: "reachable s \<Longrightarrow> newGame rnd s = Some s' \<Longrightarrow> reachable s'"

section \<open>Clicks: what the handler and the watcher change\<close>

lemma tiles_startTimer: "tiles (startTimer s) = tiles s"
  by (simp add: startTimer_def Let_def)

lemma tiles_stopTimer: "tiles (stopTimer s) = tiles s"
  by (simp add: stopTimer_def Let_def split: option.splits)

lemma tiles_flushWatch: "tiles (flushWatch was s) = tiles s"
  by (simp add: flushWatch_def onComplete_def tiles_stopTimer)

lemma tiles_handleTileClick:
  "tiles (handleTileClick index s) =
     (if moveApplied index s
      then js_swap (spread (tiles s)) index (findEmptyIndex (tiles s))
      else tiles s)"
  by (simp add: handleTileClick_def moveApplied_def Let_def tiles_startTimer)

lemma tiles_click:
  "tiles (click index s) =
     (if moveApplied index s
      then js_swap (spread (tiles s)) index (findEmptyIndex (tiles s))
      else tiles s)"
  by (simp add: click_def tiles_flushWatch tiles_handleTileClick)

lemma handleTileClick_rejected: "\<not> moveApplied index s \<Longrightarrow> handleTileClick index s = s"
  by (simp add: handleTileClick_def moveApplied_def split: if_splits)

lemma click_rejected: "\<not> moveApplied index s \<Longrightarrow> click index s = s"
  by (simp add: click_def handleTileClick_rejected flushWatch_def)

section \<open>Boards and the array operations\<close>

subsection \<open>The solved board\<close>

lemma original_upt: "original = map (\<lambda>i. Num (int i)) [0..<16]"
  by (simp add: original_def upto.simps upt_rec)

lemma length_original: "length original = 16"
  by (simp add: original_upt)

lemma distinct_original: "distinct original"
  by (simp add: original_upt distinct_map inj_on_def del: upt_Suc)

lemma set_original: "set original = Num ` int ` {0..<16}"
  by (simp add: original_upt image_image del: upt_Suc)

subsection \<open>Boards\<close>

lemma board_length: "is_board b \<Longrightarrow> length b = 16"
  using mset_eq_length [of b original] by (simp add: is_board_def length_original)

lemma board_distinct: "is_board b \<Longrightarrow> distinct b"
  using mset_eq_imp_distinct_iff [of b original] by (simp add: is_board_def distinct_original)

lemma board_set: "is_board b \<Longrightarrow> set b = Num ` int ` {0..<16}"
  using mset_eq_setD [of b original] by (simp add: is_board_def set_original)

lemma board_no_hole: "is_board b \<Longrightarrow> Hole \<notin> set b"
  by (auto simp: board_set)

lemma board_has_empty: "is_board b \<Longrightarrow> \<exists>e<16. b ! e = Num 15"
proof -
  assume b: "is_board b"
  have "Num (int 15) \<in> Num ` int ` {0..<16}" by (intro imageI) simp
  then have "Num 15 \<in> set b" using b by (simp add: board_set)
  then show ?thesis using b by (auto simp: in_set_conv_nth board_length)
qed

lemma board_one_empty: "is_board b \<Longrightarrow> count (mset b) (Num 15) = 1"
proof -
  assume b: "is_board b"
  have "Num (int 15) \<in> Num ` int ` {0..<16}" by (intro imageI) simp
  then have "Num 15 \<in> set b" using b by (simp add: board_set)
  then show ?thesis using board_distinct [OF b] by (simp add: distinct_count_atmost_1)
qed

subsection \<open>Array operations on arrays without holes\<close>

lemma spread_no_hole: "Hole \<notin> set a \<Longrightarrow> spread a = a"
  by (induction a) (auto simp: spread_def)

lemma js_get_in_range:
  "Hole \<notin> set a \<Longrightarrow> i < length a \<Longrightarrow> js_get a (int i) = a ! i"
proof -
  assume "Hole \<notin> set a" "i < length a"
  then have "a ! i \<noteq> Hole" by (metis nth_mem)
  with \<open>i < length a\<close> show ?thesis by (simp add: js_get_def)
qed

lemma js_swap_in_range:
  assumes "Hole \<notin> set a" "i < length a" "j < length a"
  shows "js_swap a (int i) (int j) = a[i := a ! j, j := a ! i]"
  using assms by (simp add: js_swap_def js_set_def js_get_in_range Let_def)

lemma every_from_nth:
  "every_from f cs k = (\<forall>i<length cs. cs ! i = Hole \<or> f (cs ! i) (k + int i))"
proof (induction cs arbitrary: k)
  case Nil
  then show ?case by simp
next
  case (Cons c cs)
  have "(\<forall>i<Suc (length cs). (c # cs) ! i = Hole \<or> f ((c # cs) ! i) (k + int i)) =
        ((c = Hole \<or> f c k) \<and> (\<forall>i<length cs. cs ! i = Hole \<or> f (cs ! i) (k + 1 + int i)))"
    by (simp add: All_less_Suc2 ac_simps)
  then show ?case by (auto simp: Cons.IH)
qed

lemma isComplete_nth:
  "isComplete ts = (\<forall>i<length ts. ts ! i = Hole \<or> ts ! i = Num (int i))"
  by (simp add: isComplete_def js_every_def every_from_nth)

lemma indexOf_from_nth:
  "e < length a \<Longrightarrow> a ! e = Num v \<Longrightarrow> (\<forall>i<e. a ! i \<noteq> Num v) \<Longrightarrow>
   indexOf_from a v k = k + int e"
proof (induction a arbitrary: e k)
  case Nil
  then show ?case by simp
next
  case (Cons c cs)
  show ?case
  proof (cases e)
    case 0
    with Cons.prems show ?thesis by simp
  next
    case (Suc e')
    from Cons.prems Suc have c: "c \<noteq> Num v" by auto
    from Cons.prems Suc have "\<forall>i<e'. cs ! i \<noteq> Num v" by auto
    with Cons.prems Suc have "indexOf_from cs v (k + 1) = k + 1 + int e'"
      by (intro Cons.IH) auto
    with c Suc show ?thesis by simp
  qed
qed

lemma indexOf_distinct:
  assumes "distinct a" "e < length a" "a ! e = Num v"
  shows "indexOf a v = int e"
proof -
  have "a ! i \<noteq> Num v" if "i < e" for i
  proof
    assume "a ! i = Num v"
    with assms that have "a ! i = a ! e" "i < length a" by simp_all
    with assms that show False by (metis nth_eq_iff_index_eq less_irrefl)
  qed
  then have "\<forall>i<e. a ! i \<noteq> Num v" by blast
  with assms show ?thesis
    by (simp add: indexOf_def indexOf_from_nth)
qed

subsection \<open>Boards: completion, the empty slot, adjacency\<close>

lemma board_spec_solved: "is_board b \<Longrightarrow> isComplete b = spec_solved b"
proof -
  assume b: "is_board b"
  have "b ! i \<noteq> Hole" if "i < 16" for i
    using board_no_hole [OF b] board_length [OF b] that by (metis nth_mem)
  then show ?thesis
    by (auto simp: isComplete_nth spec_solved_def list_all_iff board_length [OF b])
qed

lemma board_findEmptyIndex:
  "is_board b \<Longrightarrow> e < 16 \<Longrightarrow> b ! e = Num 15 \<Longrightarrow> findEmptyIndex b = int e"
  by (simp add: findEmptyIndex_def indexOf_distinct board_distinct board_length)

lemma js_rem_nat: "js_rem (int n) 4 = int (n mod 4)"
  by (cases "n = 0") (simp_all add: js_rem_def zmod_int)

lemma isAdjacent_spec:
  "findEmptyIndex b = int e \<Longrightarrow> isAdjacent b (int p) = spec_adjacent p e"
proof -
  assume e: "findEmptyIndex b = int e"
  have d: "int n div 4 = int (n div 4)" for n
    by (simp add: zdiv_int)
  have c: "(\<bar>int x - int y\<bar> = 0) = (y = x)" for x y
    by auto
  show ?thesis
    unfolding isAdjacent_def spec_adjacent_def Let_def e js_rem_nat d c
    by (auto simp: abs_minus_commute)
qed

lemma spec_adjacent_neq: "spec_adjacent p e \<Longrightarrow> p \<noteq> e"
  by (auto simp: spec_adjacent_def)

subsection \<open>An applied move on a board\<close>

lemma board_moveApplied:
  assumes "is_board (tiles s)" "e < 16" "tiles s ! e = Num 15"
  shows "moveApplied (int p) s = (\<not> spec_solved (tiles s) \<and> spec_adjacent p e)"
  using assms
  by (simp add: moveApplied_def board_spec_solved isAdjacent_spec board_findEmptyIndex)

lemma board_click_tiles:
  assumes "is_board (tiles s)" "p < 16" "e < 16" "tiles s ! e = Num 15"
    "moveApplied (int p) s"
  shows "tiles (click (int p) s) = (tiles s)[p := tiles s ! e, e := tiles s ! p]"
  using assms
  by (simp add: tiles_click board_findEmptyIndex spread_no_hole board_no_hole
      js_swap_in_range board_length)

lemma is_board_swap:
  assumes "is_board b" "p < 16" "e < 16"
  shows "is_board (b[p := b ! e, e := b ! p])"
  using assms mset_swap [of e b p]
  by (simp add: is_board_def board_length)

lemma board_click_empty:
  assumes "is_board b" "p < 16" "e < 16" "p \<noteq> e"
  shows "b[p := b ! e, e := b ! p] ! p = b ! e"
  using assms by (simp add: board_length)

lemma board_swap_back:
  assumes "is_board b" "p < 16" "e < 16" "p \<noteq> e" "c = b[p := b ! e, e := b ! p]"
  shows "c[e := c ! p, p := c ! e] = b"
  using assms by (simp add: board_length list_eq_iff_nth_eq nth_list_update)

lemma board_swap_changes:
  assumes "is_board b" "p < 16" "e < 16" "p \<noteq> e"
  shows "b[p := b ! e, e := b ! p] \<noteq> b"
proof
  assume "b[p := b ! e, e := b ! p] = b"
  then have "b[p := b ! e, e := b ! p] ! p = b ! p" by simp
  with assms have "b ! e = b ! p" by (simp add: board_length)
  with assms show False
    by (metis board_distinct board_length nth_eq_iff_index_eq)
qed

lemma spec_adjacent_sym: "spec_adjacent p e = spec_adjacent e p"
  by (auto simp: spec_adjacent_def abs_minus_commute)

lemma is_board_click:
  assumes "is_board (tiles s)" "0 \<le> index" "index < 16"
  shows "is_board (tiles (click index s))"
proof (cases "moveApplied index s")
  case False
  with assms show ?thesis by (simp add: click_rejected)
next
  case True
  obtain e where e: "e < 16" "tiles s ! e = Num 15"
    using board_has_empty [OF assms(1)] by blast
  define p where "p = nat index"
  with assms have p: "p < 16" "index = int p" by simp_all
  have "tiles (click (int p) s) = (tiles s)[p := tiles s ! e, e := tiles s ! p]"
    using assms(1) p(1) e True unfolding p(2) by (rule board_click_tiles)
  with assms(1) p e is_board_swap [of "tiles s" p e] show ?thesis by simp
qed

section \<open>The timer\<close>

lemma handleTileClick_running:
  "isTimerRunning s \<Longrightarrow>
   handleTileClick index s =
     (if moveApplied index s
      then s\<lparr>tiles := js_swap (spread (tiles s)) index (findEmptyIndex (tiles s))\<rparr>
      else s)"
  by (simp add: handleTileClick_def moveApplied_def startTimer_def Let_def)

lemma not_running_stopTimer: "\<not> isTimerRunning (stopTimer s)"
  by (simp add: stopTimer_def Let_def split: option.splits)

lemma running_started_handleTileClick:
  "(isTimerRunning s \<longrightarrow> hasStarted s) \<Longrightarrow>
   isTimerRunning (handleTileClick index s) \<longrightarrow> hasStarted (handleTileClick index s)"
  by (simp add: handleTileClick_def Let_def startTimer_def)

lemma running_started_flushWatch:
  "(isTimerRunning s \<longrightarrow> hasStarted s) \<Longrightarrow>
   isTimerRunning (flushWatch was s) \<longrightarrow> hasStarted (flushWatch was s)"
  by (simp add: flushWatch_def onComplete_def not_running_stopTimer)

lemma not_running_resetTimer: "\<not> isTimerRunning (resetTimer s)"
  by (simp add: resetTimer_def not_running_stopTimer)

lemma not_running_newGame: "newGame rnd s = Some s' \<Longrightarrow> \<not> isTimerRunning s'"
  using running_started_flushWatch [of "resetTimer x" for x]
  by (auto simp: newGame_def resetGame_def initGame_def flushWatch_def onComplete_def
      not_running_resetTimer not_running_stopTimer split: option.splits if_splits)

section \<open>Shuffling and the retry loop\<close>

lemma random_index:
  fixes r :: rat
  assumes "0 \<le> r" "r < 1" "0 < m"
  shows "0 \<le> \<lfloor>r * of_int m\<rfloor> \<and> \<lfloor>r * of_int m\<rfloor> < m"
proof
  show "0 \<le> \<lfloor>r * of_int m\<rfloor>"
    using assms by simp
  have "r * of_int m < 1 * of_int m"
    using assms by (intro mult_strict_right_mono) simp_all
  then show "\<lfloor>r * of_int m\<rfloor> < m"
    by (simp add: floor_less_iff)
qed

lemma shuffle_loop_mset:
  assumes "\<forall>k. 0 \<le> rnd k \<and> rnd k < 1" "Hole \<notin> set a" "n < length a"
  shows "mset (fst (shuffle_loop n a rnd)) = mset a"
  using assms
proof (induction n arbitrary: a rnd)
  case 0
  then show ?case by simp
next
  case (Suc n)
  define j where "j = \<lfloor>rnd 0 * of_int (int (Suc n) + 1)\<rfloor>"
  have "0 \<le> j \<and> j < int (Suc n) + 1"
    unfolding j_def using Suc.prems(1) by (intro random_index) simp_all
  moreover define jn where "jn = nat j"
  ultimately have jn: "j = int jn" "jn \<le> Suc n"
    by (auto simp: nat_le_iff)
  let ?a' = "a[Suc n := a ! jn, jn := a ! Suc n]"
  have sw: "js_swap a (int (Suc n)) j = ?a'"
    unfolding jn using Suc.prems jn(2) by (intro js_swap_in_range) simp_all
  have m: "mset ?a' = mset a"
    using Suc.prems jn(2) by (intro mset_swap) simp_all
  then have "set ?a' = set a" by (rule mset_eq_setD)
  then have nh: "Hole \<notin> set ?a'" using Suc.prems by simp
  have r: "\<forall>k. 0 \<le> rest rnd k \<and> rest rnd k < 1"
    using Suc.prems(1) by (simp add: rest_def)
  have "mset (fst (shuffle_loop n ?a' (rest rnd))) = mset ?a'"
    using r nh Suc.prems(3) by (intro Suc.IH) simp_all
  then show ?case
    using m sw by (simp add: j_def Let_def)
qed

lemma shuffle_loop_random: "snd (shuffle_loop n a rnd) = (\<lambda>k. rnd (n + k))"
  by (induction n arbitrary: a rnd) (simp_all add: Let_def rest_def)

lemma is_board_shuffleArray:
  assumes "\<forall>k. 0 \<le> rnd k \<and> rnd k < 1"
  shows "is_board (fst (shuffleArray original rnd))"
proof -
  have nh: "Hole \<notin> set original"
    by (auto simp: set_original)
  have "mset (fst (shuffle_loop 15 original rnd)) = mset original"
    using assms nh by (intro shuffle_loop_mset) (simp_all add: length_original)
  then show ?thesis
    by (simp add: is_board_def shuffleArray_def spread_no_hole [OF nh] length_original)
qed

lemma round_random_shift: "round_random n rnd = (\<lambda>k. rnd (15 * n + k))"
proof (induction n arbitrary: rnd)
  case 0
  show ?case by simp
next
  case (Suc n)
  show ?case
    by (simp add: Suc.IH shuffleArray_def shuffle_loop_random length_original add.assoc)
qed

lemma is_board_candidate:
  assumes "\<forall>k. 0 \<le> rnd k \<and> rnd k < 1"
  shows "is_board (candidate n rnd)"
  unfolding candidate_def using assms
  by (intro is_board_shuffleArray) (simp add: round_random_shift)

subsection \<open>The retry loop\<close>

lemma candidate_Suc:
  "candidate (Suc n) rnd = candidate n (snd (shuffleArray original rnd))"
  by (simp add: candidate_def)

lemma shuffle_retry_unfold:
  "shuffle_retry rnd =
     (if rejected (candidate 0 rnd) then shuffle_retry (snd (shuffleArray original rnd))
      else Some (candidate 0 rnd, snd (shuffleArray original rnd)))"
  by (subst shuffle_retry.simps) (simp add: rejected_def candidate_def isComplete_def Let_def)

lemma shuffle_retry_sound:
  "shuffle_retry rnd = Some y \<Longrightarrow> \<exists>n. fst y = candidate n rnd \<and> \<not> rejected (candidate n rnd)"
proof (induction rule: shuffle_retry.raw_induct [rotated, consumes 1, case_names step])
  case (step f rnd y)
  let ?rnd1 = "snd (shuffleArray original rnd)"
  show ?case
  proof (cases "rejected (candidate 0 rnd)")
    case True
    with step(2) have "f ?rnd1 = Some y"
      by (simp add: rejected_def candidate_def isComplete_def Let_def split: if_splits)
    then obtain n where "fst y = candidate n ?rnd1" "\<not> rejected (candidate n ?rnd1)"
      using step(1) by blast
    then have "fst y = candidate (Suc n) rnd \<and> \<not> rejected (candidate (Suc n) rnd)"
      by (simp add: candidate_Suc)
    then show ?thesis by blast
  next
    case False
    with step(2) have "fst y = candidate 0 rnd"
      by (auto simp: rejected_def candidate_def isComplete_def Let_def split: if_splits)
    with False show ?thesis by blast
  qed
qed

lemma shuffle_retry_returns:
  "\<not> rejected (candidate n rnd) \<Longrightarrow> \<exists>y. shuffle_retry rnd = Some y"
proof (induction n arbitrary: rnd)
  case 0
  then show ?case by (subst shuffle_retry_unfold) simp
next
  case (Suc n)
  then have "\<exists>y. shuffle_retry (snd (shuffleArray original rnd)) = Some y"
    by (intro Suc.IH) (simp add: candidate_Suc)
  then show ?case by (subst shuffle_retry_unfold) simp
qed

lemma newGame_Some:
  assumes "newGame rnd s = Some s'"
  obtains y where "shuffle_retry rnd = Some y" "s' = resetTimer (s\<lparr>tiles := fst y\<rparr>)"
proof -
  from assms obtain y where y: "shuffle_retry rnd = Some y"
    by (auto simp: newGame_def resetGame_def initGame_def split: option.splits)
  have nr: "\<not> isTimerRunning (resetTimer (s\<lparr>tiles := fst y\<rparr>))"
    by (rule not_running_resetTimer)
  from assms y have "s' = flushWatch (isComplete (tiles s)) (resetTimer (s\<lparr>tiles := fst y\<rparr>))"
    by (auto simp: newGame_def resetGame_def initGame_def split: prod.splits)
  with nr have "s' = resetTimer (s\<lparr>tiles := fst y\<rparr>)"
    by (simp add: flushWatch_def onComplete_def)
  with y show ?thesis by (rule that)
qed

lemma tiles_resetTimer: "tiles (resetTimer s) = tiles s"
  by (simp add: resetTimer_def tiles_stopTimer)

text \<open>
  The loop need not end: when every call of \<open>Math.random()\<close> returns \<open>15/16\<close>, every
  round shuffles the solved board again, which is rejected.
\<close>

lemma shuffle_retry_may_diverge: "shuffle_retry (\<lambda>k. 15 / 16) = None"
proof (rule ccontr)
  assume "shuffle_retry (\<lambda>k. 15 / 16) \<noteq> None"
  then obtain y where "shuffle_retry (\<lambda>k. 15 / 16) = Some y" by auto
  then obtain n where n: "\<not> rejected (candidate n (\<lambda>k. 15 / 16))"
    using shuffle_retry_sound by blast
  have "candidate n (\<lambda>k. 15 / 16) = candidate 0 (\<lambda>k. 15 / 16)"
    by (simp add: candidate_def round_random_shift)
  moreover have "rejected (candidate 0 (\<lambda>k. 15 / 16))"
    by code_simp
  ultimately show False using n by simp
qed

section \<open>The loops of the solvability check\<close>

lemma inner_loop_count:
  "inner_loop flatArr i j inversions =
     inversions + int (length (filter (\<lambda>k. js_gt (js_get flatArr (int i)) (js_get flatArr (int k)))
                                [j..<length flatArr]))"
proof (induction flatArr i j inversions rule: inner_loop.induct)
  case (1 flatArr i j inversions)
  show ?case
  proof (cases "j < length flatArr")
    case True
    then have u: "[j..<length flatArr] = j # [j + 1..<length flatArr]"
      by (simp add: upt_conv_Cons)
    have "inner_loop flatArr i j inversions = inner_loop flatArr i (j + 1)
             (if js_gt (js_get flatArr (int i)) (js_get flatArr (int j))
              then inversions + 1 else inversions)"
      using True by (subst inner_loop.simps) simp
    also have "\<dots> = (if js_gt (js_get flatArr (int i)) (js_get flatArr (int j))
              then inversions + 1 else inversions) + int (length (filter (\<lambda>k. js_gt (js_get flatArr (int i)) (js_get flatArr (int k)))
                                [j + 1..<length flatArr]))"
      using True by (rule "1")
    also have "\<dots> = inversions + int (length (filter (\<lambda>k. js_gt (js_get flatArr (int i)) (js_get flatArr (int k)))
                                [j..<length flatArr]))"
      unfolding u by simp
    finally show ?thesis .
  next
    case False
    then show ?thesis by (subst inner_loop.simps) simp
  qed
qed

lemma outer_loop_count:
  "outer_loop flatArr i inversions =
     inversions +
     (\<Sum>a\<leftarrow>[i..<length flatArr].
        int (length (filter (\<lambda>k. js_gt (js_get flatArr (int a)) (js_get flatArr (int k)))
                       [a + 1..<length flatArr])))"
proof (induction flatArr i inversions rule: outer_loop.induct)
  case (1 flatArr i inversions)
  let ?row = "\<lambda>a. int (length (filter (\<lambda>k. js_gt (js_get flatArr (int a)) (js_get flatArr (int k)))
                       [a + 1..<length flatArr]))"
  show ?case
  proof (cases "i < length flatArr")
    case True
    then have u: "[i..<length flatArr] = i # [i + 1..<length flatArr]"
      by (simp add: upt_conv_Cons)
    have "outer_loop flatArr i inversions =
        outer_loop flatArr (i + 1) (inner_loop flatArr i (i + 1) inversions)"
      using True by (subst outer_loop.simps) simp
    also have "\<dots> = inner_loop flatArr i (i + 1) inversions +
        (\<Sum>a\<leftarrow>[i + 1..<length flatArr]. ?row a)"
      using True by (rule "1")
    also have "\<dots> = inversions + (\<Sum>a\<leftarrow>[i..<length flatArr]. ?row a)"
      unfolding u inner_loop_count by simp
    finally show ?thesis .
  next
    case False
    then show ?thesis by (subst outer_loop.simps) simp
  qed
qed

lemma length_filter_product:
  "length (filter P (List.product xs ys)) =
     (\<Sum>x\<leftarrow>xs. length (filter (\<lambda>y. P (x, y)) ys))"
  by (induction xs) (simp_all add: filter_map o_def)

lemma filter_after:
  assumes "i < n"
  shows "filter (\<lambda>j. i < j \<and> P j) [0..<n] = filter P [i + 1..<n]"
proof -
  from assms obtain d where d: "n = (i + 1) + d"
    by (auto simp: less_iff_Suc_add)
  have "[0..<n] = [0..<i + 1] @ [i + 1..<n]"
    unfolding d by (rule upt_add_eq_append) simp
  moreover have "filter (\<lambda>j. i < j \<and> P j) [0..<i + 1] = []"
    by (auto simp: filter_empty_conv)
  moreover have "filter (\<lambda>j. i < j \<and> P j) [i + 1..<n] = filter P [i + 1..<n]"
    by (intro filter_cong) auto
  ultimately show ?thesis by simp
qed

lemma spec_inversions_sum:
  "spec_inversions ls =
     (\<Sum>i\<leftarrow>[0..<length ls]. length (filter (\<lambda>j. ls ! i > ls ! j) [i + 1..<length ls]))"
proof -
  have "spec_inversions ls =
      (\<Sum>i\<leftarrow>[0..<length ls]. length (filter (\<lambda>j. i < j \<and> ls ! i > ls ! j) [0..<length ls]))"
    by (simp add: spec_inversions_def length_filter_product)
  also have "\<dots> = (\<Sum>i\<leftarrow>[0..<length ls]. length (filter (\<lambda>j. ls ! i > ls ! j) [i + 1..<length ls]))"
    by (intro arg_cong [where f = sum_list] map_cong refl) (simp add: filter_after)
  finally show ?thesis .
qed

lemma outer_loop_labels:
  "outer_loop (map Num ls) 0 0 = int (spec_inversions ls)"
proof -
  have g: "js_get (map Num ls) (int k) = Num (ls ! k)" if "k < length ls" for k
    using that by (simp add: js_get_def)
  have "outer_loop (map Num ls) 0 0 =
      (\<Sum>a\<leftarrow>[0..<length ls]. int (length (filter (\<lambda>k. ls ! a > ls ! k) [a + 1..<length ls])))"
    unfolding outer_loop_count
    by (simp, intro arg_cong [where f = sum_list] map_cong refl arg_cong [where f = int]
          arg_cong [where f = length] filter_cong) (simp_all add: g)
  also have "\<dots> = int (spec_inversions ls)"
    by (simp add: spec_inversions_sum sum_list_of_nat [symmetric] o_def)
  finally show ?thesis .
qed

lemma js_rem_nonneg: "0 \<le> a \<Longrightarrow> 0 < b \<Longrightarrow> js_rem a b = a mod b"
  by (cases "a = 0") (simp_all add: js_rem_def)

lemma parity_rule:
  "(if (r::int) mod 2 = 1 then int n mod 2 = 0 else int n mod 2 = 1) =
   ((odd r \<and> even n) \<or> (even r \<and> odd n))"
  by presburger

lemma js_filter_labels:
  "\<forall>c\<in>set b. \<exists>v. c = Num v \<Longrightarrow>
   js_filter (\<lambda>x. x \<noteq> Num 15) b = map Num (spec_labels b)"
  by (induction b) (auto simp: js_filter_def split: if_splits)

lemma board_labels:
  assumes "is_board b"
  shows "js_filter (\<lambda>x. x \<noteq> Num 15) b = map Num (spec_labels b)"
    and "length (spec_labels b) = 15"
proof -
  show f: "js_filter (\<lambda>x. x \<noteq> Num 15) b = map Num (spec_labels b)"
    using assms by (intro js_filter_labels) (auto simp: board_set)
  have "count (mset b) (Num 15) = length (filter (\<lambda>c. c = Num 15) b)"
    unfolding count_mset count_list_eq_length_filter
    by (intro arg_cong [where f = length] filter_cong) auto
  then have "length (filter (\<lambda>c. c = Num 15) b) = 1"
    using board_one_empty [OF assms] by simp
  moreover have "length (filter (\<lambda>c. c = Num 15) b) + length (filter (\<lambda>c. c \<noteq> Num 15) b) = length b"
    using sum_length_filter_compl [of "\<lambda>c. c = Num 15" b] by (simp add: o_def)
  moreover have "filter (\<lambda>c. c \<noteq> Num 15) b = js_filter (\<lambda>x. x \<noteq> Num 15) b"
    unfolding js_filter_def using board_no_hole [OF assms] by (intro filter_cong) auto
  ultimately have "length (js_filter (\<lambda>x. x \<noteq> Num 15) b) = 15"
    using board_length [OF assms] by simp
  then show "length (spec_labels b) = 15"
    by (simp add: f)
qed

section \<open>Starting a game\<close>

text \<open>
  Claim C1. Every board the retry loop of \<open>initGame\<close> returns passes \<open>isSolvable\<close> and
  is not complete; when the random numbers lie in \<open>[0, 1)\<close>, as those of \<open>Math.random\<close>
  do, some position \<open>i\<close> in \<open>0..15\<close> holds a value other than \<open>i\<close>.
\<close>

theorem shuffle_retry_solvable_unsolved:
  assumes "shuffle_retry rnd = Some (b, rnd')"
  shows "isSolvable b \<and> \<not> isComplete b \<and>
         ((\<forall>k. 0 \<le> rnd k \<and> rnd k < 1) \<longrightarrow> (\<exists>i<16. b ! i \<noteq> Num (int i)))"
proof -
  from shuffle_retry_sound [OF assms] obtain n
    where n: "b = candidate n rnd" "\<not> rejected b" by auto
  then have ok: "isSolvable b" "\<not> isComplete b"
    by (simp_all add: rejected_def split: if_splits)
  have "\<exists>i<16. b ! i \<noteq> Num (int i)" if "\<forall>k. 0 \<le> rnd k \<and> rnd k < 1"
  proof -
    from that have "is_board b" unfolding n(1) by (rule is_board_candidate)
    with ok(2) have "\<not> spec_solved b" by (simp add: board_spec_solved)
    then show ?thesis by (auto simp: spec_solved_def list_all_iff)
  qed
  with ok show ?thesis by blast
qed

theorem shuffle_retry_solvable_unsolved_witness:
  "shuffle_retry (\<lambda>k. 0) = Some (map Num [1, 2, 3, 4, 5, 6, 7, 8, 9, 10, 11, 12, 13, 14, 15, 0], \<lambda>k. 0) \<and>
   isSolvable (map Num [1, 2, 3, 4, 5, 6, 7, 8, 9, 10, 11, 12, 13, 14, 15, 0]) \<and>
   (\<exists>i<16. map Num [1, 2, 3, 4, 5, 6, 7, 8, 9, 10, 11, 12, 13, 14, 15, 0] ! i \<noteq> Num (int i))"
proof -
  let ?b = "map Num [1, 2, 3, 4, 5, 6, 7, 8, 9, 10, 11, 12, 13, 14, 15, 0]"
  have c: "candidate 0 (\<lambda>k. 0) = ?b" by code_simp
  have a: "\<not> rejected (candidate 0 (\<lambda>k. 0))" by code_simp
  have "snd (shuffleArray original (\<lambda>k. 0)) = (\<lambda>k. 0)"
    by (simp add: shuffleArray_def shuffle_loop_random)
  with a c have r: "shuffle_retry (\<lambda>k. 0) = Some (?b, \<lambda>k. 0)"
    by (subst shuffle_retry_unfold) simp
  have ok: "\<forall>k::nat. 0 \<le> (0::rat) \<and> (0::rat) < 1" by simp
  from shuffle_retry_solvable_unsolved [OF r] ok r show ?thesis by simp
qed

text \<open>
  Claim C7. Whatever the session was, the session a new game produces has elapsed time 0,
  the timer not running, the session not started, and a board that is not complete and
  passes \<open>isSolvable\<close>. The loop has no bound on its rounds: a new game produces a
  session exactly when some round of the loop shuffles a board that is not rejected.
\<close>

theorem new_game_resets_session:
  "(newGame rnd s = Some s' \<longrightarrow>
      elapsedTime s' = 0 \<and> \<not> isTimerRunning s' \<and> \<not> hasStarted s' \<and>
      \<not> isComplete (tiles s') \<and> isSolvable (tiles s')) \<and>
   ((\<exists>s1. newGame rnd s = Some s1) \<longleftrightarrow> (\<exists>n. \<not> rejected (candidate n rnd)))"
proof (intro conjI iffI impI)
  assume "newGame rnd s = Some s'"
  then obtain y where y: "shuffle_retry rnd = Some y" "s' = resetTimer (s\<lparr>tiles := fst y\<rparr>)"
    by (rule newGame_Some)
  from shuffle_retry_sound [OF y(1)] have "\<not> rejected (fst y)" by auto
  then have "isSolvable (fst y)" "\<not> isComplete (fst y)"
    by (simp_all add: rejected_def split: if_splits)
  then have "elapsedTime s' = 0 \<and> \<not> isTimerRunning s' \<and> \<not> hasStarted s' \<and>
      \<not> isComplete (tiles s') \<and> isSolvable (tiles s')"
    unfolding y(2) by (simp add: resetTimer_def tiles_stopTimer not_running_stopTimer)
  then show "elapsedTime s' = 0" "\<not> isTimerRunning s'" "\<not> hasStarted s'"
    "\<not> isComplete (tiles s')" "isSolvable (tiles s')"
    by simp_all
next
  assume "\<exists>s1. newGame rnd s = Some s1"
  then obtain s1 where "newGame rnd s = Some s1" by blast
  then obtain y where "shuffle_retry rnd = Some y" by (rule newGame_Some)
  with shuffle_retry_sound show "\<exists>n. \<not> rejected (candidate n rnd)"
    by blast
next
  assume "\<exists>n. \<not> rejected (candidate n rnd)"
  then obtain y where "shuffle_retry rnd = Some y"
    using shuffle_retry_returns by blast
  then show "\<exists>s1. newGame rnd s = Some s1"
    by (simp add: newGame_def resetGame_def initGame_def split: prod.splits)
qed

theorem new_game_resets_session_witness:
  "newGame (\<lambda>k. 0)
     \<lparr>tiles = map Num [0, 1, 2, 3, 4, 5, 6, 7, 8, 9, 10, 15, 12, 13, 14, 11],
      elapsedTime = 42, isTimerRunning = True, hasStarted = True,
      timerInterval = Some 1, intervals = [1]\<rparr> =
   Some \<lparr>tiles = map Num [1, 2, 3, 4, 5, 6, 7, 8, 9, 10, 11, 12, 13, 14, 15, 0],
      elapsedTime = 0, isTimerRunning = False, hasStarted = False,
      timerInterval = None, intervals = []\<rparr> \<and>
   \<not> isComplete (map Num [1, 2, 3, 4, 5, 6, 7, 8, 9, 10, 11, 12, 13, 14, 15, 0]) \<and>
   isSolvable (map Num [1, 2, 3, 4, 5, 6, 7, 8, 9, 10, 11, 12, 13, 14, 15, 0]) \<and>
   \<not> rejected (candidate 0 (\<lambda>k. 0))"
proof -
  let ?s = "\<lparr>tiles = map Num [0, 1, 2, 3, 4, 5, 6, 7, 8, 9, 10, 15, 12, 13, 14, 11],
      elapsedTime = 42, isTimerRunning = True, hasStarted = True,
      timerInterval = Some 1, intervals = [1]\<rparr>"
  let ?s' = "\<lparr>tiles = map Num [1, 2, 3, 4, 5, 6, 7, 8, 9, 10, 11, 12, 13, 14, 15, 0],
      elapsedTime = 0, isTimerRunning = False, hasStarted = False,
      timerInterval = None, intervals = []\<rparr>"
  have r: "newGame (\<lambda>k. 0) ?s = Some ?s'" by code_simp
  have a: "\<not> rejected (candidate 0 (\<lambda>k. 0))" by code_simp
  from new_game_resets_session [of "\<lambda>k. 0" ?s ?s'] r a show ?thesis by simp
qed

section \<open>The solvability check\<close>

text \<open>
  Claim C2. On every board (a permutation of \<open>0..15\<close>, the empty slot at position \<open>e\<close>)
  there are 15 non-empty labels, and \<open>isSolvable\<close> is true exactly when the parity rule
  holds: with the inversions counted over the sequence of the non-empty labels and
  \<open>emptyRowFromBottom = 4 - e div 4\<close>, either \<open>emptyRowFromBottom\<close> is odd and the
  inversion count is even, or \<open>emptyRowFromBottom\<close> is even and the inversion count is
  odd.
\<close>

theorem isSolvable_parity_rule:
  assumes "is_board b" "e < 16" "b ! e = Num 15"
  shows "length (spec_labels b) = 15 \<and>
         (isSolvable b \<longleftrightarrow>
            (odd (4 - int (e div 4)) \<and> even (spec_inversions (spec_labels b))) \<or>
            (even (4 - int (e div 4)) \<and> odd (spec_inversions (spec_labels b))))"
proof -
  let ?inv = "int (spec_inversions (spec_labels b))"
  let ?r = "4 - int (e div 4)"
  have i: "indexOf b 15 = int e"
    using assms by (simp add: indexOf_distinct board_distinct board_length)
  have r: "4 - int e div 4 = ?r"
    by (simp add: zdiv_int)
  have "0 \<le> ?r"
    using assms(2) by simp
  then have rr: "js_rem ?r 2 = ?r mod 2"
    by (rule js_rem_nonneg) simp
  have ri: "js_rem ?inv 2 = ?inv mod 2"
    by (rule js_rem_nonneg) simp_all
  have "isSolvable b =
      (if js_rem (4 - int e div 4) 2 = 1 then js_rem ?inv 2 = 0 else js_rem ?inv 2 = 1)"
    by (simp add: isSolvable_def Let_def board_labels(1) [OF assms(1)] outer_loop_labels i)
  also have "\<dots> = (if ?r mod 2 = 1 then ?inv mod 2 = 0 else ?inv mod 2 = 1)"
    by (simp only: r rr ri)
  also have "\<dots> = ((odd ?r \<and> even (spec_inversions (spec_labels b))) \<or>
            (even ?r \<and> odd (spec_inversions (spec_labels b))))"
    by (rule parity_rule)
  finally show ?thesis
    using board_labels(2) [OF assms(1)] by simp
qed

theorem isSolvable_parity_rule_witness:
  "is_board (map Num [1, 2, 3, 4, 5, 6, 7, 8, 9, 10, 11, 12, 13, 14, 15, 0]) \<and>
   spec_labels (map Num [1, 2, 3, 4, 5, 6, 7, 8, 9, 10, 11, 12, 13, 14, 15, 0]) =
     [1, 2, 3, 4, 5, 6, 7, 8, 9, 10, 11, 12, 13, 14, 0] \<and>
   spec_inversions [1, 2, 3, 4, 5, 6, 7, 8, 9, 10, 11, 12, 13, 14, 0] = 14 \<and>
   isSolvable (map Num [1, 2, 3, 4, 5, 6, 7, 8, 9, 10, 11, 12, 13, 14, 15, 0])"
proof -
  let ?b = "map Num [1, 2, 3, 4, 5, 6, 7, 8, 9, 10, 11, 12, 13, 14, 15, 0]"
  have b: "is_board ?b" by code_simp
  have e: "?b ! 14 = Num 15" by simp
  have l: "spec_labels ?b = [1, 2, 3, 4, 5, 6, 7, 8, 9, 10, 11, 12, 13, 14, 0]" by simp
  have n: "spec_inversions [1, 2, 3, 4, 5, 6, 7, 8, 9, 10, 11, 12, 13, 14, 0] = 14" by code_simp
  from isSolvable_parity_rule [OF b _ e] b l n show ?thesis by simp
qed

section \<open>Move requests\<close>

text \<open>
  Claim C3. On every board (a permutation of \<open>0..15\<close>, its empty slot at position \<open>e\<close>)
  and for every position \<open>p\<close> in \<open>0..15\<close>: the click on \<open>p\<close> is applied if and only if
  the board is not solved and \<open>p\<close> is orthogonally adjacent to \<open>e\<close>. When it is applied,
  the new board is the old one with the values at \<open>p\<close> and \<open>e\<close> exchanged, and differs
  from the old one. When it is not applied, the whole session, the board included, is
  unchanged. The handler has no failing branch: the model of it is a total function into
  sessions.
\<close>

theorem move_applied_iff_adjacent_unsolved:
  assumes "is_board (tiles s)" "p < 16" "e < 16" "tiles s ! e = Num 15"
  shows "(moveApplied (int p) s \<longleftrightarrow> \<not> spec_solved (tiles s) \<and> spec_adjacent p e) \<and>
         (moveApplied (int p) s \<longrightarrow>
            tiles (click (int p) s) = (tiles s)[p := tiles s ! e, e := tiles s ! p] \<and>
            tiles (click (int p) s) \<noteq> tiles s) \<and>
         (\<not> moveApplied (int p) s \<longrightarrow> click (int p) s = s)"
proof (intro conjI impI)
  show "moveApplied (int p) s \<longleftrightarrow> \<not> spec_solved (tiles s) \<and> spec_adjacent p e"
    using assms by (simp add: board_moveApplied)
next
  assume a: "moveApplied (int p) s"
  show t: "tiles (click (int p) s) = (tiles s)[p := tiles s ! e, e := tiles s ! p]"
    using assms a by (rule board_click_tiles)
  have "p \<noteq> e"
    using assms a by (auto simp: board_moveApplied dest: spec_adjacent_neq)
  with assms show "tiles (click (int p) s) \<noteq> tiles s"
    unfolding t by (intro board_swap_changes)
next
  assume "\<not> moveApplied (int p) s"
  then show "click (int p) s = s" by (rule click_rejected)
qed

theorem move_applied_iff_adjacent_unsolved_witness:
  "is_board (map Num [1, 0, 2, 3, 4, 5, 6, 7, 8, 9, 10, 11, 12, 13, 14, 15]) \<and>
   moveApplied 11 (initial\<lparr>tiles := map Num [1, 0, 2, 3, 4, 5, 6, 7, 8, 9, 10, 11, 12, 13, 14, 15]\<rparr>) \<and>
   spec_adjacent 11 15 \<and>
   tiles (click 11 (initial\<lparr>tiles := map Num [1, 0, 2, 3, 4, 5, 6, 7, 8, 9, 10, 11, 12, 13, 14, 15]\<rparr>)) =
     map Num [1, 0, 2, 3, 4, 5, 6, 7, 8, 9, 10, 15, 12, 13, 14, 11]"
proof -
  let ?b = "map Num [1, 0, 2, 3, 4, 5, 6, 7, 8, 9, 10, 11, 12, 13, 14, 15]"
  let ?s = "initial\<lparr>tiles := ?b\<rparr>"
  have b: "is_board (tiles ?s)" by code_simp
  have e: "tiles ?s ! 15 = Num 15" by simp
  have ns: "\<not> spec_solved ?b" by code_simp
  have ad: "spec_adjacent 11 15" by (simp add: spec_adjacent_def)
  from move_applied_iff_adjacent_unsolved [OF b _ _ e, of 11] b ns ad show ?thesis by simp
qed

text \<open>
  Claim C4. On the board \<open>[1,0,2,3,4,5,6,7,8,9,10,11,12,13,14,15]\<close>, whatever the rest of
  the session is: the component is not complete; a click on position 0 is not applied and
  leaves the whole session as it is; a click on position 11 is applied and the board
  becomes \<open>[1,0,2,3,4,5,6,7,8,9,10,15,12,13,14,11]\<close>.
\<close>

theorem scenario_swapped_first_two:
  "let b = map Num [1, 0, 2, 3, 4, 5, 6, 7, 8, 9, 10, 11, 12, 13, 14, 15]
   in \<not> isComplete b \<and>
      \<not> moveApplied 0 (s\<lparr>tiles := b\<rparr>) \<and>
      click 0 (s\<lparr>tiles := b\<rparr>) = s\<lparr>tiles := b\<rparr> \<and>
      moveApplied 11 (s\<lparr>tiles := b\<rparr>) \<and>
      tiles (click 11 (s\<lparr>tiles := b\<rparr>)) =
        map Num [1, 0, 2, 3, 4, 5, 6, 7, 8, 9, 10, 15, 12, 13, 14, 11]"
proof -
  define b where "b = map Num [1, 0, 2, 3, 4, 5, 6, 7, 8, 9, 10, 11, 12, 13, 14, 15]"
  have nc: "\<not> isComplete b"
    by (simp add: b_def isComplete_def js_every_def)
  have e: "findEmptyIndex b = 15"
    by (simp add: b_def findEmptyIndex_def indexOf_def)
  have a0: "\<not> isAdjacent b 0"
    by (simp add: isAdjacent_def e js_rem_def)
  have a11: "isAdjacent b 11"
    by (simp add: isAdjacent_def e js_rem_def)
  have sw: "js_swap (spread b) 11 15 =
      map Num [1, 0, 2, 3, 4, 5, 6, 7, 8, 9, 10, 15, 12, 13, 14, 11]"
    by (simp add: b_def js_swap_def spread_def js_get_def js_set_def)
  have r0: "\<not> moveApplied 0 (s\<lparr>tiles := b\<rparr>)"
    by (simp add: moveApplied_def a0)
  have r11: "moveApplied 11 (s\<lparr>tiles := b\<rparr>)"
    by (simp add: moveApplied_def a11 nc)
  show ?thesis
    unfolding Let_def b_def [symmetric]
    using nc r0 r11 click_rejected [OF r0] by (simp add: tiles_click e sw)
qed

text \<open>
  The same position requested twice in a row. On every board and for every position \<open>p\<close>
  in \<open>0..15\<close> whose move is applied, the request for the same \<open>p\<close> that follows is never
  applied: \<open>p\<close> now holds the empty slot, and no position is adjacent to itself. It
  leaves the session as the first move made it. The request for \<open>e\<close>, the position the
  empty slot had before, is the one that is applied (unless the first move has completed
  the puzzle) and gives back the board before the first move.
\<close>

lemma repeated_move_rejected_previous_empty_restores:
  assumes "is_board (tiles s)" "p < 16" "e < 16" "tiles s ! e = Num 15"
    "moveApplied (int p) s"
  shows "\<not> moveApplied (int p) (click (int p) s) \<and>
         click (int p) (click (int p) s) = click (int p) s \<and>
         tiles (click (int p) (click (int p) s)) \<noteq> tiles s \<and>
         (\<not> isComplete (tiles (click (int p) s)) \<longrightarrow>
            moveApplied (int e) (click (int p) s) \<and>
            tiles (click (int e) (click (int p) s)) = tiles s)"
proof -
  let ?b = "tiles s" and ?s1 = "click (int p) s"
  have adj: "spec_adjacent p e" and pe: "p \<noteq> e"
    using assms by (auto simp: board_moveApplied dest: spec_adjacent_neq)
  have t1: "tiles ?s1 = ?b[p := ?b ! e, e := ?b ! p]"
    using assms by (rule board_click_tiles)
  have b1: "is_board (tiles ?s1)"
    unfolding t1 using assms by (intro is_board_swap)
  have e1: "tiles ?s1 ! p = Num 15"
    unfolding t1 using assms pe board_click_empty [of "tiles s" p e] by simp
  have rej: "\<not> moveApplied (int p) ?s1"
    using b1 e1 assms by (auto simp: board_moveApplied dest: spec_adjacent_neq)
  then have same: "click (int p) ?s1 = ?s1" by (rule click_rejected)
  have diff: "tiles ?s1 \<noteq> ?b"
    unfolding t1 using assms pe by (intro board_swap_changes)
  have restore: "moveApplied (int e) ?s1 \<and> tiles (click (int e) ?s1) = ?b"
    if nc: "\<not> isComplete (tiles ?s1)"
  proof -
    have ap: "moveApplied (int e) ?s1"
      using b1 e1 assms nc adj
      by (simp add: board_moveApplied [where e = p] board_spec_solved spec_adjacent_sym)
    have "tiles (click (int e) ?s1) = (tiles ?s1)[e := tiles ?s1 ! p, p := tiles ?s1 ! e]"
      using b1 assms e1 ap by (intro board_click_tiles)
    also have "\<dots> = ?b"
      using assms pe t1 by (intro board_swap_back)
    finally show ?thesis using ap by simp
  qed
  show ?thesis using rej same diff restore by simp
qed

lemma repeated_move_rejected_previous_empty_restores_example:
  "\<not> moveApplied 11 (click 11 (initial\<lparr>tiles := map Num [1, 0, 2, 3, 4, 5, 6, 7, 8, 9, 10, 11, 12, 13, 14, 15]\<rparr>)) \<and>
   \<not> isComplete (tiles (click 11 (initial\<lparr>tiles := map Num [1, 0, 2, 3, 4, 5, 6, 7, 8, 9, 10, 11, 12, 13, 14, 15]\<rparr>))) \<and>
   moveApplied 15 (click 11 (initial\<lparr>tiles := map Num [1, 0, 2, 3, 4, 5, 6, 7, 8, 9, 10, 11, 12, 13, 14, 15]\<rparr>)) \<and>
   tiles (click 15 (click 11 (initial\<lparr>tiles := map Num [1, 0, 2, 3, 4, 5, 6, 7, 8, 9, 10, 11, 12, 13, 14, 15]\<rparr>))) =
     map Num [1, 0, 2, 3, 4, 5, 6, 7, 8, 9, 10, 11, 12, 13, 14, 15]"
proof -
  let ?b = "map Num [1, 0, 2, 3, 4, 5, 6, 7, 8, 9, 10, 11, 12, 13, 14, 15]"
  let ?s = "initial\<lparr>tiles := ?b\<rparr>"
  have b: "is_board (tiles ?s)" by code_simp
  have e: "tiles ?s ! 15 = Num 15" by simp
  have a: "moveApplied (int 11) ?s" by code_simp
  have n: "\<not> isComplete (tiles (click 11 ?s))" by code_simp
  from repeated_move_rejected_previous_empty_restores [OF b _ _ e a] n show ?thesis by simp
qed

text \<open>
  Claim C6. The board a new game produces, when the random numbers lie in \<open>[0, 1)\<close>, is
  a permutation of the labels \<open>0..15\<close> and holds the empty label exactly once; and on
  every such board, a click on a position in \<open>0..15\<close>, applied or not, leaves a board that
  is such a permutation again.
\<close>

theorem board_invariant:
  "((\<forall>k. 0 \<le> rnd k \<and> rnd k < 1) \<longrightarrow> newGame rnd s0 = Some s1 \<longrightarrow>
      is_board (tiles s1) \<and> count (mset (tiles s1)) (Num 15) = 1) \<and>
   (is_board (tiles s) \<longrightarrow> 0 \<le> index \<longrightarrow> index < 16 \<longrightarrow>
      is_board (tiles (click index s)) \<and> count (mset (tiles (click index s))) (Num 15) = 1)"
proof (intro conjI impI)
  assume r: "\<forall>k. 0 \<le> rnd k \<and> rnd k < 1" and "newGame rnd s0 = Some s1"
  then obtain y where y: "shuffle_retry rnd = Some y" "s1 = resetTimer (s0\<lparr>tiles := fst y\<rparr>)"
    by (auto elim: newGame_Some)
  from shuffle_retry_sound [OF y(1)] obtain n where "fst y = candidate n rnd" by auto
  with r have "is_board (fst y)" by (simp add: is_board_candidate)
  then show b: "is_board (tiles s1)" by (simp add: y(2) tiles_resetTimer)
  then show "count (mset (tiles s1)) (Num 15) = 1" by (rule board_one_empty)
next
  assume "is_board (tiles s)" "0 \<le> index" "index < 16"
  then show b: "is_board (tiles (click index s))" by (rule is_board_click)
  then show "count (mset (tiles (click index s))) (Num 15) = 1" by (rule board_one_empty)
qed

theorem board_invariant_witness:
  "newGame (\<lambda>k. 0) initial =
     Some (initial\<lparr>tiles := map Num [1, 2, 3, 4, 5, 6, 7, 8, 9, 10, 11, 12, 13, 14, 15, 0]\<rparr>) \<and>
   is_board (map Num [1, 2, 3, 4, 5, 6, 7, 8, 9, 10, 11, 12, 13, 14, 15, 0]) \<and>
   is_board (tiles (click 15 (initial\<lparr>tiles := map Num [1, 2, 3, 4, 5, 6, 7, 8, 9, 10, 11, 12, 13, 14, 15, 0]\<rparr>)))"
proof -
  let ?b = "map Num [1, 2, 3, 4, 5, 6, 7, 8, 9, 10, 11, 12, 13, 14, 15, 0]"
  let ?s = "initial\<lparr>tiles := ?b\<rparr>"
  have r: "newGame (\<lambda>k. 0) initial = Some ?s" by code_simp
  have ok: "\<forall>k::nat. 0 \<le> (0::rat) \<and> (0::rat) < 1" by simp
  from board_invariant [of "\<lambda>k. 0" initial ?s ?s 15] r ok show ?thesis by simp
qed

text \<open>
  Claim C10. On every board with the empty slot at position 12, the click on position 16
  passes the test of adjacency (row 4, column 0 against row 3, column 0) and is applied:
  the array gets a 17th element holding the empty label, position 12 holds \<open>undefined\<close>,
  none of the positions \<open>0..15\<close> holds the empty label any more, and the array is no
  board.
\<close>

theorem click_beyond_last_row_applied:
  assumes "is_board (tiles s)" "tiles s ! 12 = Num 15"
  shows "isAdjacent (tiles s) 16 \<and> moveApplied 16 s \<and>
         tiles (click 16 s) = (tiles s)[12 := Undefined] @ [Num 15] \<and>
         Num 15 \<notin> set (take 16 (tiles (click 16 s))) \<and>
         \<not> is_board (tiles (click 16 s))"
proof -
  let ?b = "tiles s"
  have len: "length ?b = 16" and nh: "Hole \<notin> set ?b" and d: "distinct ?b"
    using assms by (simp_all add: board_length board_no_hole board_distinct)
  have e: "findEmptyIndex ?b = 12"
    using board_findEmptyIndex [OF assms(1), of 12] assms(2) by simp
  have adj: "isAdjacent ?b 16"
    by (simp add: isAdjacent_def e js_rem_def)
  have "\<not> spec_solved ?b"
    using assms(2) by (auto simp: spec_solved_def list_all_iff intro!: bexI [of _ 12])
  then have ap: "moveApplied 16 s"
    using adj assms(1) by (simp add: moveApplied_def board_spec_solved)
  have g12: "js_get ?b 12 = Num 15"
    using js_get_in_range [OF nh, of 12] len assms(2) by simp
  have g16: "js_get ?b 16 = Undefined"
    using len by (simp add: js_get_def)
  have sw: "js_swap ?b 16 12 = ?b[12 := Undefined] @ [Num 15]"
    using len by (simp add: js_swap_def g12 g16 js_set_def list_update_append)
  have t: "tiles (click 16 s) = ?b[12 := Undefined] @ [Num 15]"
    using ap by (simp add: tiles_click e spread_no_hole [OF nh] sw)
  have "set (?b[12 := Undefined]) = insert Undefined (set ?b - {Num 15})"
    using set_update_distinct [OF d, of 12 Undefined] len assms(2) by simp
  then have no: "Num 15 \<notin> set (take 16 (tiles (click 16 s)))"
    using len by (simp add: t)
  have "length (tiles (click 16 s)) = 17"
    using len by (simp add: t)
  then have "\<not> is_board (tiles (click 16 s))"
    using board_length [of "tiles (click 16 s)"] by auto
  with adj ap t no show ?thesis by simp
qed

theorem click_beyond_last_row_applied_witness:
  "is_board (map Num [0, 1, 2, 3, 4, 5, 6, 7, 8, 9, 10, 11, 15, 13, 14, 12]) \<and>
   tiles (click 16 (initial\<lparr>tiles := map Num [0, 1, 2, 3, 4, 5, 6, 7, 8, 9, 10, 11, 15, 13, 14, 12]\<rparr>)) =
     [Num 0, Num 1, Num 2, Num 3, Num 4, Num 5, Num 6, Num 7, Num 8, Num 9, Num 10, Num 11,
      Undefined, Num 13, Num 14, Num 12, Num 15]"
proof -
  let ?b = "map Num [0, 1, 2, 3, 4, 5, 6, 7, 8, 9, 10, 11, 15, 13, 14, 12]"
  let ?s = "initial\<lparr>tiles := ?b\<rparr>"
  have b: "is_board (tiles ?s)" by code_simp
  have e: "tiles ?s ! 12 = Num 15" by simp
  from click_beyond_last_row_applied [OF b e] b show ?thesis by simp
qed

section \<open>The timer on completion and the invariant of the flags\<close>

text \<open>
  Claim C8. In every session whose timer is running, an applied click after which the
  board is complete makes the watcher call \<open>stopTimer\<close>: the running flag becomes false,
  the elapsed time is the one before the click, and the started flag and the board are
  those the handler left. (\<open>stopTimer\<close> also cancels the interval and clears its handle,
  which are not among the fields of the session state of the specification.)
\<close>

theorem completing_move_stops_timer:
  assumes "isTimerRunning s" "moveApplied index s"
    "isComplete (tiles (handleTileClick index s))"
  shows "click index s = stopTimer (handleTileClick index s) \<and>
         \<not> isTimerRunning (click index s) \<and>
         elapsedTime (click index s) = elapsedTime s \<and>
         hasStarted (click index s) = hasStarted s \<and>
         tiles (click index s) = tiles (handleTileClick index s)"
proof -
  let ?h = "handleTileClick index s"
  have nc: "\<not> isComplete (tiles s)"
    using assms(2) by (simp add: moveApplied_def split: if_splits)
  have h: "?h = s\<lparr>tiles := js_swap (spread (tiles s)) index (findEmptyIndex (tiles s))\<rparr>"
    using assms by (simp add: handleTileClick_running)
  have run: "isTimerRunning ?h" and el: "elapsedTime ?h = elapsedTime s"
    and st: "hasStarted ?h = hasStarted s"
    using assms(1) by (simp_all add: h)
  have c: "click index s = stopTimer ?h"
    using nc assms(3) run by (simp add: click_def flushWatch_def onComplete_def)
  show ?thesis
    unfolding c using el st
    by (simp add: stopTimer_def Let_def split: option.splits)
qed

theorem completing_move_stops_timer_witness:
  "click 15 \<lparr>tiles = map Num [0, 1, 2, 3, 4, 5, 6, 7, 8, 9, 10, 15, 12, 13, 14, 11],
      elapsedTime = 42, isTimerRunning = True, hasStarted = True,
      timerInterval = Some 1, intervals = [1]\<rparr> =
   \<lparr>tiles = map Num [0, 1, 2, 3, 4, 5, 6, 7, 8, 9, 10, 11, 12, 13, 14, 15],
      elapsedTime = 42, isTimerRunning = False, hasStarted = True,
      timerInterval = None, intervals = []\<rparr>"
proof -
  let ?s = "\<lparr>tiles = map Num [0, 1, 2, 3, 4, 5, 6, 7, 8, 9, 10, 15, 12, 13, 14, 11],
      elapsedTime = 42, isTimerRunning = True, hasStarted = True,
      timerInterval = Some 1, intervals = [1]\<rparr>"
  have r: "isTimerRunning ?s" by simp
  have a: "moveApplied 15 ?s" by code_simp
  have c: "isComplete (tiles (handleTileClick 15 ?s))" by code_simp
  have "stopTimer (handleTileClick 15 ?s) = \<lparr>tiles = map Num [0, 1, 2, 3, 4, 5, 6, 7, 8, 9, 10, 11, 12, 13, 14, 15],
      elapsedTime = 42, isTimerRunning = False, hasStarted = True,
      timerInterval = None, intervals = []\<rparr>" by code_simp
  with completing_move_stops_timer [OF r a c] show ?thesis by simp
qed

text \<open>
  Claim C9. In every state reachable from the initial one by clicks on any index, firings
  of the interval and games started with any random numbers: if the timer is running, the
  session has started.
\<close>

theorem running_implies_started: "reachable s \<Longrightarrow> isTimerRunning s \<longrightarrow> hasStarted s"
proof (induction rule: reachable.induct)
  case start
  show ?case by (simp add: initial_def)
next
  case (move s index)
  then show ?case
    unfolding click_def
    by (intro running_started_flushWatch running_started_handleTileClick)
next
  case (fire s)
  then show ?case by (simp add: tick_def)
next
  case (game s rnd s')
  then show ?case by (simp add: not_running_newGame)
qed

theorem running_implies_started_witness:
  "reachable (click 15 (initial\<lparr>tiles := map Num [1, 2, 3, 4, 5, 6, 7, 8, 9, 10, 11, 12, 13, 14, 15, 0]\<rparr>)) \<and>
   isTimerRunning (click 15 (initial\<lparr>tiles := map Num [1, 2, 3, 4, 5, 6, 7, 8, 9, 10, 11, 12, 13, 14, 15, 0]\<rparr>)) \<and>
   hasStarted (click 15 (initial\<lparr>tiles := map Num [1, 2, 3, 4, 5, 6, 7, 8, 9, 10, 11, 12, 13, 14, 15, 0]\<rparr>))"
proof -
  let ?b = "map Num [1, 2, 3, 4, 5, 6, 7, 8, 9, 10, 11, 12, 13, 14, 15, 0]"
  let ?s = "initial\<lparr>tiles := ?b\<rparr>"
  have "newGame (\<lambda>k. 0) initial = Some ?s" by code_simp
  with reachable.start have "reachable ?s" by (rule reachable.game)
  then have r: "reachable (click 15 ?s)" by (rule reachable.move)
  have t: "isTimerRunning (click 15 ?s)" by code_simp
  from running_implies_started [OF r] r t show ?thesis by simp
qed

end